theory Spec2Isabelle
  imports Main
begin

section \<open>Values, signals and the Store\<close>

text \<open>
  The module \<^verbatim>\<open>registry.ts\<close> keeps its state in four module-level objects: the Store
  (\<^verbatim>\<open>registry = new ecs.World()\<close>), the table \<^verbatim>\<open>signals\<close> with its three fields, and
  the two maps \<^verbatim>\<open>components\<close> and \<^verbatim>\<open>idToKey\<close>. Every exported function is modelled as
  a function from the state before the call to the outcome and the state after it. An
  exception of the source (the failing \<^verbatim>\<open>assert\<close>) is the outcome
  \<open>Inl AssertionFailed\<close>; the state that comes with it is the state at the moment of
  the throw, since nothing in the source rolls a mutation back.
\<close>

datatype error = AssertionFailed

text \<open>
  A Signal instance, as a reference: \<open>Signal n\<close> is the \<open>n\<close>-th instance that
  \<^verbatim>\<open>createSignal\<close> returned.
\<close>

datatype signal = Signal nat

text \<open>
  The three closures that \<^verbatim>\<open>component\<close> hands to the Store. Each of them captures one
  signal and forwards its arguments to \<^verbatim>\<open>fire\<close>: \<open>FireEntity\<close> is
  \<^verbatim>\<open>entity => sig.fire(entity)\<close>, \<open>FireEntityData\<close> is
  \<^verbatim>\<open>(entity, data) => sig.fire(entity, data)\<close>.
\<close>

datatype hook = FireEntity signal | FireEntityData signal

text \<open>
  Component data. The source is generic in the data type; \<^verbatim>\<open>insert\<close> passes an array
  where a datum is expected and \<^verbatim>\<open>component\<close> passes closures, so both are values.
\<close>

datatype val = Num int | Str string | Arr "val list" | Fn hook

text \<open>
  The second argument of the Store's \<^verbatim>\<open>set\<close>: one of the built-in components
  \<^verbatim>\<open>ecs.OnAdd\<close>, \<^verbatim>\<open>ecs.OnRemove\<close>, \<^verbatim>\<open>ecs.OnSet\<close>, or an identifier obtained from
  \<^verbatim>\<open>registry.component()\<close>.
\<close>

datatype target = OnAdd | OnRemove | OnSet | Ident nat

text \<open>
  Modelled from the spec: the Store, which is the external package \<^verbatim>\<open>@rbxts/jecs\<close> and
  not among the sources. It is modelled at the interface that section 6 of the
  specification requires of it: \<^verbatim>\<open>component()\<close> and \<^verbatim>\<open>entity()\<close> hand out numeric
  handles, none of them twice; \<open>store\<close> holds what is attached to which entity
  (\<open>Some None\<close> is a tag without data); \<open>calls\<close> is the history of the mutating
  primitives that were invoked, in order. How the Store dispatches the registered hooks
  is its own behaviour and not part of this model; the hooks are stored like any other
  datum, as the source registers them through \<^verbatim>\<open>registry.set\<close>.
\<close>

datatype call =
    NewComponent nat
  | NewEntity nat
  | SetCall nat target val
  | AddCall nat target
  | RemoveCall nat target
  | DeleteCall nat

record world =
  next_handle :: nat
  store :: "nat \<times> target \<Rightarrow> val option option"
  calls :: "call list"

definition world_component :: "world \<Rightarrow> nat \<times> world" where
  "world_component w =
     (next_handle w,
      w\<lparr>next_handle := Suc (next_handle w),
        calls := calls w @ [NewComponent (next_handle w)]\<rparr>)"

definition world_entity :: "world \<Rightarrow> nat \<times> world" where
  "world_entity w =
     (next_handle w,
      w\<lparr>next_handle := Suc (next_handle w),
        calls := calls w @ [NewEntity (next_handle w)]\<rparr>)"

definition world_set :: "nat \<Rightarrow> target \<Rightarrow> val \<Rightarrow> world \<Rightarrow> world" where
  "world_set e c v w =
     w\<lparr>store := (store w)((e, c) \<mapsto> Some v), calls := calls w @ [SetCall e c v]\<rparr>"

definition world_add :: "nat \<Rightarrow> target \<Rightarrow> world \<Rightarrow> world" where
  "world_add e c w =
     w\<lparr>store := (case store w (e, c) of
                    None \<Rightarrow> (store w)((e, c) \<mapsto> None)
                  | Some d \<Rightarrow> store w),
       calls := calls w @ [AddCall e c]\<rparr>"

definition world_remove :: "nat \<Rightarrow> target \<Rightarrow> world \<Rightarrow> world" where
  "world_remove e c w =
     w\<lparr>store := (store w)((e, c) := None), calls := calls w @ [RemoveCall e c]\<rparr>"

definition world_get :: "nat \<Rightarrow> target \<Rightarrow> world \<Rightarrow> val option" where
  "world_get e c w = (case store w (e, c) of Some (Some v) \<Rightarrow> Some v | _ \<Rightarrow> None)"

definition world_has :: "nat \<Rightarrow> target \<Rightarrow> world \<Rightarrow> bool" where
  "world_has e c w = (store w (e, c) \<noteq> None)"

definition world_delete :: "nat \<Rightarrow> world \<Rightarrow> world" where
  "world_delete e w =
     w\<lparr>store := (\<lambda>(e', c). if e' = e then None else store w (e', c)),
       calls := calls w @ [DeleteCall e]\<rparr>"

definition new_world :: world where
  "new_world = \<lparr>next_handle = 0, store = (\<lambda>p. None), calls = []\<rparr>"

section \<open>The module state\<close>

record flamecs =
  registry :: world
  signals_added :: "nat \<Rightarrow> signal option"
  signals_changed :: "nat \<Rightarrow> signal option"
  signals_removed :: "nat \<Rightarrow> signal option"
  idToKey :: "nat \<Rightarrow> string option"
  components :: "string \<Rightarrow> nat option"
  created_signals :: nat

definition init_state :: flamecs where
  "init_state =
     \<lparr>registry = new_world,
      signals_added = (\<lambda>i. None),
      signals_changed = (\<lambda>i. None),
      signals_removed = (\<lambda>i. None),
      idToKey = (\<lambda>i. None),
      components = (\<lambda>k. None),
      created_signals = 0\<rparr>"

text \<open>
  Modelled from the spec: \<^verbatim>\<open>createSignal\<close> of \<^verbatim>\<open>./signal\<close>, whose file is not among the
  sources. A Signal is an object with \<^verbatim>\<open>subscribe\<close> and \<^verbatim>\<open>fire\<close> and no operation
  that disposes of it; every call of \<^verbatim>\<open>createSignal\<close> returns a new instance.
\<close>

definition createSignal :: "flamecs \<Rightarrow> signal \<times> flamecs" where
  "createSignal s =
     (Signal (created_signals s), s\<lparr>created_signals := Suc (created_signals s)\<rparr>)"

section \<open>The exported functions\<close>

text \<open>
  \<^verbatim>\<open>added\<close> and \<^verbatim>\<open>removed\<close> index the table; the \<^verbatim>\<open>!\<close> of the source is erased
  by the compiler, so a missing entry is returned as \<^verbatim>\<open>undefined\<close>, here \<open>None\<close>.
\<close>

definition added :: "nat \<Rightarrow> flamecs \<Rightarrow> (error + signal option) \<times> flamecs" where
  "added i s = (Inr (signals_added s i), s)"

definition removed :: "nat \<Rightarrow> flamecs \<Rightarrow> (error + signal option) \<times> flamecs" where
  "removed i s = (Inr (signals_removed s i), s)"

text \<open>
  \<^verbatim>\<open>assert(key)\<close> tests the truthiness of a \<^verbatim>\<open>string | undefined\<close>: it throws for
  \<^verbatim>\<open>undefined\<close> and for the empty string. The body of
  \<^verbatim>\<open>if (id === undefined) { ... }\<close> is \<open>mint\<close>, statement by statement.
\<close>

definition mint :: "string \<Rightarrow> flamecs \<Rightarrow> nat \<times> flamecs" where
  "mint k s =
     (let (i, w) = world_component (registry s);
          s1 = s\<lparr>registry := w\<rparr>;
          s2 = s1\<lparr>components := (components s1)(k \<mapsto> i)\<rparr>;
          s3 = s2\<lparr>idToKey := (idToKey s2)(i \<mapsto> k)\<rparr>;
          (addedSignal, s4) = createSignal s3;
          (removedSignal, s5) = createSignal s4;
          (changedSignal, s6) = createSignal s5;
          s7 = s6\<lparr>signals_added := (signals_added s6)(i \<mapsto> addedSignal)\<rparr>;
          s8 = s7\<lparr>signals_removed := (signals_removed s7)(i \<mapsto> removedSignal)\<rparr>;
          s9 = s8\<lparr>signals_changed := (signals_changed s8)(i \<mapsto> changedSignal)\<rparr>;
          s10 = s9\<lparr>registry := world_set i OnAdd (Fn (FireEntity addedSignal)) (registry s9)\<rparr>;
          s11 = s10\<lparr>registry :=
                  world_set i OnRemove (Fn (FireEntity removedSignal)) (registry s10)\<rparr>;
          s12 = s11\<lparr>registry :=
                  world_set i OnSet (Fn (FireEntityData changedSignal)) (registry s11)\<rparr>
      in (i, s12))"

definition component :: "string option \<Rightarrow> flamecs \<Rightarrow> (error + nat) \<times> flamecs" where
  "component key s =
     (case key of
        None \<Rightarrow> (Inl AssertionFailed, s)
      | Some k \<Rightarrow>
          if k = [] then (Inl AssertionFailed, s)
          else (case components s k of
                  Some i \<Rightarrow> (Inr i, s)
                | None \<Rightarrow> (let (i, s') = mint k s in (Inr i, s'))))"

definition set_op :: "nat \<Rightarrow> val \<Rightarrow> string option \<Rightarrow> flamecs \<Rightarrow> (error + unit) \<times> flamecs" where
  "set_op entity v key s =
     (case component key s of
        (Inl err, s') \<Rightarrow> (Inl err, s')
      | (Inr i, s') \<Rightarrow> (Inr (), s'\<lparr>registry := world_set entity (Ident i) v (registry s')\<rparr>))"

text \<open>
  The loop of \<^verbatim>\<open>insert\<close> runs over the keys alone; each turn passes the whole array
  \<^verbatim>\<open>values\<close> to the Store. \<^verbatim>\<open>assert(keys)\<close> tests an array, which is truthy whenever
  it is present.
\<close>

fun insert_loop :: "nat \<Rightarrow> val list \<Rightarrow> string list \<Rightarrow> flamecs \<Rightarrow> (error + unit) \<times> flamecs" where
  "insert_loop entity vs [] s = (Inr (), s)"
| "insert_loop entity vs (key # keys) s =
     (case component (Some key) s of
        (Inl err, s') \<Rightarrow> (Inl err, s')
      | (Inr i, s') \<Rightarrow>
          insert_loop entity vs keys
            (s'\<lparr>registry := world_set entity (Ident i) (Arr vs) (registry s')\<rparr>))"

definition insert_op ::
  "nat \<Rightarrow> val list \<Rightarrow> string list option \<Rightarrow> flamecs \<Rightarrow> (error + unit) \<times> flamecs" where
  "insert_op entity vs keys s =
     (case keys of
        None \<Rightarrow> (Inl AssertionFailed, s)
      | Some ks \<Rightarrow> insert_loop entity vs ks s)"

definition add :: "nat \<Rightarrow> string option \<Rightarrow> flamecs \<Rightarrow> (error + unit) \<times> flamecs" where
  "add entity key s =
     (case component key s of
        (Inl err, s') \<Rightarrow> (Inl err, s')
      | (Inr i, s') \<Rightarrow> (Inr (), s'\<lparr>registry := world_add entity (Ident i) (registry s')\<rparr>))"

definition remove_op :: "nat \<Rightarrow> string option \<Rightarrow> flamecs \<Rightarrow> (error + unit) \<times> flamecs" where
  "remove_op entity key s =
     (case component key s of
        (Inl err, s') \<Rightarrow> (Inl err, s')
      | (Inr i, s') \<Rightarrow> (Inr (), s'\<lparr>registry := world_remove entity (Ident i) (registry s')\<rparr>))"

definition get :: "nat \<Rightarrow> string option \<Rightarrow> flamecs \<Rightarrow> (error + val option) \<times> flamecs" where
  "get entity key s =
     (case component key s of
        (Inl err, s') \<Rightarrow> (Inl err, s')
      | (Inr i, s') \<Rightarrow> (Inr (world_get entity (Ident i) (registry s')), s'))"

definition has :: "nat \<Rightarrow> string option \<Rightarrow> flamecs \<Rightarrow> (error + bool) \<times> flamecs" where
  "has entity key s =
     (case component key s of
        (Inl err, s') \<Rightarrow> (Inl err, s')
      | (Inr i, s') \<Rightarrow> (Inr (world_has entity (Ident i) (registry s')), s'))"

text \<open>
  The loop of \<^verbatim>\<open>spawn\<close> runs over the indices \<open>0 .. size - 1\<close> of the bundle.
  \<^verbatim>\<open>keys[index]\<close> past the end of \<^verbatim>\<open>keys\<close> is \<^verbatim>\<open>undefined\<close>; \<^verbatim>\<open>bundle[index]\<close> is
  always in range.
\<close>

fun spawn_loop ::
  "nat \<Rightarrow> val list \<Rightarrow> string list \<Rightarrow> nat list \<Rightarrow> flamecs \<Rightarrow> (error + unit) \<times> flamecs" where
  "spawn_loop entity bundle keys [] s = (Inr (), s)"
| "spawn_loop entity bundle keys (index # rest) s =
     (let key = (if index < length keys then Some (keys ! index) else None);
          data = bundle ! index
      in case component key s of
           (Inl err, s') \<Rightarrow> (Inl err, s')
         | (Inr i, s') \<Rightarrow>
             spawn_loop entity bundle keys rest
               (s'\<lparr>registry := world_set entity (Ident i) data (registry s')\<rparr>))"

definition spawn ::
  "val list option \<Rightarrow> string list option \<Rightarrow> flamecs \<Rightarrow> (error + nat) \<times> flamecs" where
  "spawn bundle keys s =
     (let (entity, w) = world_entity (registry s);
          s1 = s\<lparr>registry := w\<rparr>
      in case (keys, bundle) of
           (Some ks, Some b) \<Rightarrow>
             (case spawn_loop entity b ks [0..<length b] s1 of
                (Inl err, s') \<Rightarrow> (Inl err, s')
              | (Inr u, s') \<Rightarrow> (Inr entity, s'))
         | _ \<Rightarrow> (Inr entity, s1))"

definition despawn :: "nat \<Rightarrow> flamecs \<Rightarrow> (error + unit) \<times> flamecs" where
  "despawn entity s = (Inr (), s\<lparr>registry := world_delete entity (registry s)\<rparr>)"

section \<open>Sequences of operations\<close>

datatype op =
    Component "string option"
  | Set nat val "string option"
  | Insert nat "val list" "string list option"
  | Add nat "string option"
  | Remove nat "string option"
  | Get nat "string option"
  | Has nat "string option"
  | Spawn "val list option" "string list option"
  | Despawn nat

text \<open>The state that a call leaves behind, whether it returned or threw.\<close>

fun exec :: "op \<Rightarrow> flamecs \<Rightarrow> flamecs" where
  "exec (Component key) s = snd (component key s)"
| "exec (Set e v key) s = snd (set_op e v key s)"
| "exec (Insert e vs keys) s = snd (insert_op e vs keys s)"
| "exec (Add e key) s = snd (add e key s)"
| "exec (Remove e key) s = snd (remove_op e key s)"
| "exec (Get e key) s = snd (get e key s)"
| "exec (Has e key) s = snd (has e key s)"
| "exec (Spawn bundle keys) s = snd (spawn bundle keys s)"
| "exec (Despawn e) s = snd (despawn e s)"

fun run :: "op list \<Rightarrow> flamecs \<Rightarrow> flamecs" where
  "run [] s = s"
| "run (x # xs) s = run xs (exec x s)"

text \<open>The number of identifiers the Store was asked for.\<close>

fun is_NewComponent :: "call \<Rightarrow> bool" where
  "is_NewComponent (NewComponent i) = True"
| "is_NewComponent c = False"

fun is_NewEntity :: "call \<Rightarrow> bool" where
  "is_NewEntity (NewEntity i) = True"
| "is_NewEntity c = False"

definition allocations :: "flamecs \<Rightarrow> nat" where
  "allocations s = length (filter is_NewComponent (calls (registry s)))"

definition entity_requests :: "flamecs \<Rightarrow> nat" where
  "entity_requests s = length (filter is_NewEntity (calls (registry s)))"

text \<open>
  The states the module can be in keep the tables aligned: every interned identifier was
  handed out by the Store, the three signal tables have exactly the interned identifiers
  as keys and hold signals that \<^verbatim>\<open>createSignal\<close> returned, and component data is stored
  under identifiers that the Store handed out.
\<close>

fun valid_signal :: "flamecs \<Rightarrow> signal \<Rightarrow> bool" where
  "valid_signal s (Signal n) = (n < created_signals s)"

definition consistent :: "flamecs \<Rightarrow> bool" where
  "consistent s \<longleftrightarrow>
     (\<forall>k i. components s k = Some i \<longrightarrow> i < next_handle (registry s)) \<and>
     dom (signals_added s) = ran (components s) \<and>
     dom (signals_changed s) = ran (components s) \<and>
     dom (signals_removed s) = ran (components s) \<and>
     (\<forall>i a. signals_added s i = Some a \<longrightarrow> valid_signal s a) \<and>
     (\<forall>i a. signals_changed s i = Some a \<longrightarrow> valid_signal s a) \<and>
     (\<forall>i a. signals_removed s i = Some a \<longrightarrow> valid_signal s a) \<and>
     (\<forall>e j. store (registry s) (e, Ident j) \<noteq> None \<longrightarrow> j < next_handle (registry s))"

section \<open>What minting an identifier does\<close>

lemma fst_mint: "fst (mint k s) = next_handle (registry s)"
  by (simp add: mint_def world_component_def createSignal_def Let_def)

lemma components_mint:
  "components (snd (mint k s)) = (components s)(k \<mapsto> next_handle (registry s))"
  by (simp add: mint_def world_component_def createSignal_def Let_def)

lemma idToKey_mint:
  "idToKey (snd (mint k s)) = (idToKey s)(next_handle (registry s) \<mapsto> k)"
  by (simp add: mint_def world_component_def createSignal_def Let_def)

lemma signals_added_mint:
  "signals_added (snd (mint k s)) =
     (signals_added s)(next_handle (registry s) \<mapsto> Signal (created_signals s))"
  by (simp add: mint_def world_component_def createSignal_def Let_def)

lemma signals_removed_mint:
  "signals_removed (snd (mint k s)) =
     (signals_removed s)(next_handle (registry s) \<mapsto> Signal (Suc (created_signals s)))"
  by (simp add: mint_def world_component_def createSignal_def Let_def)

lemma signals_changed_mint:
  "signals_changed (snd (mint k s)) =
     (signals_changed s)(next_handle (registry s) \<mapsto> Signal (Suc (Suc (created_signals s))))"
  by (simp add: mint_def world_component_def createSignal_def Let_def)

lemma created_signals_mint:
  "created_signals (snd (mint k s)) = Suc (Suc (Suc (created_signals s)))"
  by (simp add: mint_def world_component_def createSignal_def Let_def)

lemma next_handle_mint:
  "next_handle (registry (snd (mint k s))) = Suc (next_handle (registry s))"
  by (simp add: mint_def world_component_def createSignal_def world_set_def Let_def)

lemma calls_mint:
  "calls (registry (snd (mint k s))) =
     calls (registry s) @
       [NewComponent (next_handle (registry s)),
        SetCall (next_handle (registry s)) OnAdd (Fn (FireEntity (Signal (created_signals s)))),
        SetCall (next_handle (registry s)) OnRemove
          (Fn (FireEntity (Signal (Suc (created_signals s))))),
        SetCall (next_handle (registry s)) OnSet
          (Fn (FireEntityData (Signal (Suc (Suc (created_signals s))))))]"
  by (simp add: mint_def world_component_def createSignal_def world_set_def Let_def)

lemma store_mint:
  "store (registry (snd (mint k s))) =
     (store (registry s))
       ((next_handle (registry s), OnAdd) \<mapsto>
          Some (Fn (FireEntity (Signal (created_signals s)))),
        (next_handle (registry s), OnRemove) \<mapsto>
          Some (Fn (FireEntity (Signal (Suc (created_signals s))))),
        (next_handle (registry s), OnSet) \<mapsto>
          Some (Fn (FireEntityData (Signal (Suc (Suc (created_signals s)))))))"
  by (simp add: mint_def world_component_def createSignal_def world_set_def Let_def)

lemma allocations_mint: "allocations (snd (mint k s)) = Suc (allocations s)"
  by (simp add: allocations_def calls_mint)

section \<open>Resolving a key\<close>

lemma component_absent: "component None s = (Inl AssertionFailed, s)"
  by (simp add: component_def)

lemma component_empty: "component (Some []) s = (Inl AssertionFailed, s)"
  by (simp add: component_def)

lemma component_known:
  "k \<noteq> [] \<Longrightarrow> components s k = Some i \<Longrightarrow> component (Some k) s = (Inr i, s)"
  by (simp add: component_def)

lemma component_new:
  "k \<noteq> [] \<Longrightarrow> components s k = None \<Longrightarrow>
     component (Some k) s = (Inr (next_handle (registry s)), snd (mint k s))"
  by (simp add: component_def split_beta fst_mint)

text \<open>
  C1. For a key that passes the assertion, two calls of \<^verbatim>\<open>component\<close> in a row return
  the same identifier; the second call leaves the whole state as the first one left it;
  and together they ask the Store for an identifier exactly once when the key was not
  interned before (and not at all when it was, the one request having been made when
  it was interned).
\<close>

theorem component_idempotent:
  assumes "k \<noteq> []"
  shows "\<exists>i s1. component (Some k) s = (Inr i, s1) \<and>
           component (Some k) s1 = (Inr i, s1) \<and>
           allocations s1 = allocations s + (if components s k = None then 1 else 0)"
proof (cases "components s k")
  case None
  let ?i = "next_handle (registry s)"
  let ?s1 = "snd (mint k s)"
  have first: "component (Some k) s = (Inr ?i, ?s1)"
    using assms None by (rule component_new)
  have "components ?s1 k = Some ?i"
    by (simp add: components_mint)
  with assms have second: "component (Some k) ?s1 = (Inr ?i, ?s1)"
    by (rule component_known)
  from first second None show ?thesis
    by (simp add: allocations_mint)
next
  case (Some i)
  with assms have "component (Some k) s = (Inr i, s)"
    by (rule component_known)
  with Some show ?thesis by simp
qed

theorem component_idempotent_witness:
  "''HP'' \<noteq> [] \<and>
   (\<exists>i s1. component (Some ''HP'') init_state = (Inr i, s1) \<and>
      component (Some ''HP'') s1 = (Inr i, s1) \<and>
      allocations s1 = allocations init_state + 1)"
  using component_idempotent [of "''HP''" init_state] by (simp add: init_state_def)

section \<open>Properties kept by every operation\<close>

lemma insert_loop_preserves:
  assumes comp: "\<And>key s. P s \<Longrightarrow> P (snd (component key s))"
    and wset: "\<And>key s i s' v. P s \<Longrightarrow> component key s = (Inr i, s') \<Longrightarrow>
                 P (s'\<lparr>registry := world_set e (Ident i) v (registry s')\<rparr>)"
    and init: "P s"
  shows "P (snd (insert_loop e vs keys s))"
  using init
proof (induction keys arbitrary: s)
  case Nil
  then show ?case by simp
next
  case (Cons key keys)
  obtain r s' where c: "component (Some key) s = (r, s')"
    by (cases "component (Some key) s")
  show ?case
  proof (cases r)
    case (Inl err)
    with c comp [OF Cons.prems, of "Some key"] show ?thesis by simp
  next
    case (Inr j)
    with c have "P (s'\<lparr>registry := world_set e (Ident j) (Arr vs) (registry s')\<rparr>)"
      using wset [OF Cons.prems] by simp
    from Cons.IH [OF this] c Inr show ?thesis by simp
  qed
qed

lemma spawn_loop_preserves:
  assumes comp: "\<And>key s. P s \<Longrightarrow> P (snd (component key s))"
    and wset: "\<And>key s i s' v. P s \<Longrightarrow> component key s = (Inr i, s') \<Longrightarrow>
                 P (s'\<lparr>registry := world_set e (Ident i) v (registry s')\<rparr>)"
    and init: "P s"
  shows "P (snd (spawn_loop e b keys idxs s))"
  using init
proof (induction idxs arbitrary: s)
  case Nil
  then show ?case by simp
next
  case (Cons index rest)
  let ?key = "if index < length keys then Some (keys ! index) else None"
  obtain r s' where c: "component ?key s = (r, s')"
    by (cases "component ?key s")
  show ?case
  proof (cases r)
    case (Inl err)
    with c comp [OF Cons.prems, of ?key] show ?thesis by (simp add: Let_def)
  next
    case (Inr j)
    with c have "P (s'\<lparr>registry := world_set e (Ident j) (b ! index) (registry s')\<rparr>)"
      using wset [OF Cons.prems] by simp
    from Cons.IH [OF this] c Inr show ?thesis by (simp add: Let_def)
  qed
qed

lemma snd_spawn:
  "snd (spawn b ks s) =
     (case (ks, b) of
        (Some ks', Some b') \<Rightarrow>
          snd (spawn_loop (next_handle (registry s)) b' ks' [0..<length b']
                 (s\<lparr>registry := snd (world_entity (registry s))\<rparr>))
      | _ \<Rightarrow> s\<lparr>registry := snd (world_entity (registry s))\<rparr>)"
  by (simp add: spawn_def world_entity_def split: option.splits prod.splits sum.splits)

lemma exec_preserves:
  assumes comp: "\<And>key s. P s \<Longrightarrow> P (snd (component key s))"
    and wset: "\<And>key s i s' e v. P s \<Longrightarrow> component key s = (Inr i, s') \<Longrightarrow>
                 P (s'\<lparr>registry := world_set e (Ident i) v (registry s')\<rparr>)"
    and wadd: "\<And>key s i s' e. P s \<Longrightarrow> component key s = (Inr i, s') \<Longrightarrow>
                 P (s'\<lparr>registry := world_add e (Ident i) (registry s')\<rparr>)"
    and wrem: "\<And>key s i s' e. P s \<Longrightarrow> component key s = (Inr i, s') \<Longrightarrow>
                 P (s'\<lparr>registry := world_remove e (Ident i) (registry s')\<rparr>)"
    and went: "\<And>s. P s \<Longrightarrow> P (s\<lparr>registry := snd (world_entity (registry s))\<rparr>)"
    and wdel: "\<And>s e. P s \<Longrightarrow> P (s\<lparr>registry := world_delete e (registry s)\<rparr>)"
    and init: "P s"
  shows "P (exec x s)"
proof (cases x)
  case (Component key)
  with comp [OF init] show ?thesis by simp
next
  case (Set e v key)
  with comp [OF init, of key] wset [OF init, of key] show ?thesis
    by (auto simp: set_op_def split: prod.splits sum.splits)
next
  case (Insert e vs keys)
  have "P (snd (insert_loop e vs ks s))" for ks
    using comp wset init by (rule insert_loop_preserves)
  with init Insert show ?thesis
    by (simp add: insert_op_def split: option.splits)
next
  case (Add e key)
  with comp [OF init, of key] wadd [OF init, of key] show ?thesis
    by (auto simp: add_def split: prod.splits sum.splits)
next
  case (Remove e key)
  with comp [OF init, of key] wrem [OF init, of key] show ?thesis
    by (auto simp: remove_op_def split: prod.splits sum.splits)
next
  case (Get e key)
  with comp [OF init, of key] show ?thesis
    by (auto simp: get_def split: prod.splits sum.splits)
next
  case (Has e key)
  with comp [OF init, of key] show ?thesis
    by (auto simp: has_def split: prod.splits sum.splits)
next
  case (Spawn b ks)
  let ?s1 = "s\<lparr>registry := snd (world_entity (registry s))\<rparr>"
  have "P (snd (spawn_loop e b' ks' idxs ?s1))" for e b' ks' idxs
    using comp wset went [OF init] by (rule spawn_loop_preserves)
  with went [OF init] Spawn show ?thesis
    by (simp add: snd_spawn split: option.splits)
next
  case (Despawn e)
  with wdel [OF init] show ?thesis by (simp add: despawn_def)
qed

lemma run_preserves:
  assumes "\<And>x s. P s \<Longrightarrow> P (exec x s)" and "P s"
  shows "P (run ops s)"
  using assms(2) by (induction ops arbitrary: s) (simp_all add: assms(1))

lemma components_component:
  "components s k = Some i \<Longrightarrow> components (snd (component key s)) k = Some i"
  by (auto simp: component_def split_beta components_mint split: option.splits)

lemma components_exec:
  assumes "components s k = Some i"
  shows "components (exec x s) k = Some i"
proof -
  let ?P = "\<lambda>s. components s k = Some i"
  have c: "?P (snd (component key s))" if "?P s" for key s
    using that by (rule components_component)
  have r: "?P s'" if "?P s" "component key s = (Inr j, s')" for key s j s'
    using c [OF that(1), of key] that(2) by simp
  show ?thesis
    by (rule exec_preserves [where P = ?P]) (auto intro: c r simp: assms)
qed

section \<open>The tables stay aligned\<close>

lemma valid_signal_mono:
  "valid_signal s a \<Longrightarrow> created_signals s \<le> created_signals s' \<Longrightarrow> valid_signal s' a"
  by (cases a) simp

lemma valid_signal_registry [simp]: "valid_signal (s\<lparr>registry := w\<rparr>) a = valid_signal s a"
  by (cases a) simp

lemma consistent_init: "consistent init_state"
  by (simp add: consistent_def init_state_def new_world_def)

lemma consistent_mint:
  assumes c: "consistent s" and fresh: "components s k = None"
  shows "consistent (snd (mint k s))"
proof -
  let ?n = "next_handle (registry s)"
  let ?s' = "snd (mint k s)"
  have mono: "valid_signal ?s' a" if "valid_signal s a" for a
    using that by (rule valid_signal_mono) (simp add: created_signals_mint)
  have 1: "\<forall>k' i. components ?s' k' = Some i \<longrightarrow> i < next_handle (registry ?s')"
    using c by (auto simp: consistent_def components_mint next_handle_mint less_Suc_eq)
  have r: "ran (components ?s') = insert ?n (ran (components s))"
    using fresh by (simp add: components_mint)
  have 2: "dom (signals_added ?s') = ran (components ?s')"
    using c by (simp add: r signals_added_mint consistent_def)
  have 3: "dom (signals_changed ?s') = ran (components ?s')"
    using c by (simp add: r signals_changed_mint consistent_def)
  have 4: "dom (signals_removed ?s') = ran (components ?s')"
    using c by (simp add: r signals_removed_mint consistent_def)
  have 5: "\<forall>i a. signals_added ?s' i = Some a \<longrightarrow> valid_signal ?s' a"
    using c mono by (auto simp: signals_added_mint consistent_def created_signals_mint)
  have 6: "\<forall>i a. signals_changed ?s' i = Some a \<longrightarrow> valid_signal ?s' a"
    using c mono by (auto simp: signals_changed_mint consistent_def created_signals_mint)
  have 7: "\<forall>i a. signals_removed ?s' i = Some a \<longrightarrow> valid_signal ?s' a"
    using c mono by (auto simp: signals_removed_mint consistent_def created_signals_mint)
  have 8: "\<forall>e j. store (registry ?s') (e, Ident j) \<noteq> None \<longrightarrow> j < next_handle (registry ?s')"
    using c by (auto simp: store_mint next_handle_mint consistent_def less_Suc_eq)
  from 1 2 3 4 5 6 7 8 show ?thesis
    unfolding consistent_def by blast
qed

lemma consistent_component: "consistent s \<Longrightarrow> consistent (snd (component key s))"
proof -
  assume c: "consistent s"
  show ?thesis
  proof (cases key)
    case None
    with c show ?thesis by (simp add: component_def)
  next
    case (Some k)
    show ?thesis
    proof (cases "k = [] \<or> components s k \<noteq> None")
      case True
      with c Some show ?thesis by (auto simp: component_def)
    next
      case False
      with c have "consistent (snd (mint k s))" by (simp add: consistent_mint)
      with False Some show ?thesis by (simp add: component_def split_beta)
    qed
  qed
qed

lemma component_result_bound:
  assumes "consistent s" and "component key s = (Inr i, s')"
  shows "i < next_handle (registry s')"
proof -
  from assms(2) have "components s' (the key) = Some i"
    by (auto simp: component_def split_beta components_mint fst_mint
             split: option.splits if_splits)
  moreover from assms have "consistent s'"
    using consistent_component [of s key] by simp
  ultimately show ?thesis unfolding consistent_def by blast
qed

lemma consistent_store:
  "consistent s \<Longrightarrow> store (registry s) (e, Ident j) = Some d \<Longrightarrow> j < next_handle (registry s)"
  unfolding consistent_def by blast

lemma consistent_registry:
  assumes "consistent s"
    and "next_handle (registry s) \<le> next_handle w"
    and "\<And>e j d. store w (e, Ident j) = Some d \<Longrightarrow> j < next_handle w"
  shows "consistent (s\<lparr>registry := w\<rparr>)"
proof -
  have "i < next_handle w" if "components s k = Some i" for k i
  proof -
    from assms(1) that have "i < next_handle (registry s)"
      unfolding consistent_def by blast
    with assms(2) show ?thesis by simp
  qed
  moreover have "j < next_handle w" if "store w (e, Ident j) \<noteq> None" for e j
    using that assms(3) by blast
  ultimately show ?thesis
    using assms(1) unfolding consistent_def by simp
qed

lemma consistent_world_set:
  assumes "consistent s" and "i < next_handle (registry s)"
  shows "consistent (s\<lparr>registry := world_set e (Ident i) v (registry s)\<rparr>)"
  using assms(1)
proof (rule consistent_registry)
  show "next_handle (registry s) \<le> next_handle (world_set e (Ident i) v (registry s))"
    by (simp add: world_set_def)
  fix e' j d
  assume "store (world_set e (Ident i) v (registry s)) (e', Ident j) = Some d"
  then show "j < next_handle (world_set e (Ident i) v (registry s))"
    using assms(2) consistent_store [OF assms(1), of e' j]
    by (auto simp: world_set_def split: if_splits)
qed

lemma consistent_world_add:
  assumes "consistent s" and "i < next_handle (registry s)"
  shows "consistent (s\<lparr>registry := world_add e (Ident i) (registry s)\<rparr>)"
  using assms(1)
proof (rule consistent_registry)
  show "next_handle (registry s) \<le> next_handle (world_add e (Ident i) (registry s))"
    by (simp add: world_add_def)
  fix e' j d
  assume "store (world_add e (Ident i) (registry s)) (e', Ident j) = Some d"
  then show "j < next_handle (world_add e (Ident i) (registry s))"
    using assms(2) consistent_store [OF assms(1), of e' j]
    by (auto simp: world_add_def split: if_splits option.splits)
qed

lemma consistent_world_remove:
  assumes "consistent s"
  shows "consistent (s\<lparr>registry := world_remove e c (registry s)\<rparr>)"
  using assms
proof (rule consistent_registry)
  show "next_handle (registry s) \<le> next_handle (world_remove e c (registry s))"
    by (simp add: world_remove_def)
  fix e' j d
  assume "store (world_remove e c (registry s)) (e', Ident j) = Some d"
  then show "j < next_handle (world_remove e c (registry s))"
    using consistent_store [OF assms, of e' j]
    by (auto simp: world_remove_def split: if_splits)
qed

lemma consistent_world_entity:
  assumes "consistent s"
  shows "consistent (s\<lparr>registry := snd (world_entity (registry s))\<rparr>)"
  using assms
proof (rule consistent_registry)
  show "next_handle (registry s) \<le> next_handle (snd (world_entity (registry s)))"
    by (simp add: world_entity_def)
  fix e' j d
  assume "store (snd (world_entity (registry s))) (e', Ident j) = Some d"
  then show "j < next_handle (snd (world_entity (registry s)))"
    using consistent_store [OF assms, of e' j]
    by (auto simp: world_entity_def less_Suc_eq)
qed

lemma consistent_world_delete:
  assumes "consistent s"
  shows "consistent (s\<lparr>registry := world_delete e (registry s)\<rparr>)"
  using assms
proof (rule consistent_registry)
  show "next_handle (registry s) \<le> next_handle (world_delete e (registry s))"
    by (simp add: world_delete_def)
  fix e' j d
  assume "store (world_delete e (registry s)) (e', Ident j) = Some d"
  then show "j < next_handle (world_delete e (registry s))"
    using consistent_store [OF assms, of e' j]
    by (auto simp: world_delete_def split: if_splits)
qed

lemma consistent_exec: "consistent s \<Longrightarrow> consistent (exec x s)"
proof (rule exec_preserves [where P = consistent])
  fix key s i s' e v
  assume a: "consistent s" "component key s = (Inr i, s')"
  then have s': "consistent s'" using consistent_component [of s key] by simp
  from a have i: "i < next_handle (registry s')" by (rule component_result_bound)
  from s' i show "consistent (s'\<lparr>registry := world_set e (Ident i) v (registry s')\<rparr>)"
    by (rule consistent_world_set)
  from s' i show "consistent (s'\<lparr>registry := world_add e (Ident i) (registry s')\<rparr>)"
    by (rule consistent_world_add)
  from s' show "consistent (s'\<lparr>registry := world_remove e (Ident i) (registry s')\<rparr>)"
    by (rule consistent_world_remove)
qed (simp_all add: consistent_component consistent_world_entity consistent_world_delete)

lemma consistent_run: "consistent s \<Longrightarrow> consistent (run ops s)"
  by (rule run_preserves [where P = consistent]) (simp_all add: consistent_exec)

lemma consistent_reachable: "consistent (run ops init_state)"
  using consistent_init by (rule consistent_run)

lemma interned_bound:
  assumes "consistent s" and "i \<in> ran (components s)"
  shows "i < next_handle (registry s)"
proof -
  from assms(2) obtain k where "components s k = Some i"
    by (auto simp: ran_def)
  with assms(1) show ?thesis unfolding consistent_def by blast
qed

lemma tables_dom:
  assumes "consistent s"
  shows "dom (signals_added s) = ran (components s)"
    and "dom (signals_changed s) = ran (components s)"
    and "dom (signals_removed s) = ran (components s)"
  using assms unfolding consistent_def by blast+

lemma tables_component:
  assumes c: "consistent s"
    and t: "signals_added s i = Some a" "signals_changed s i = Some ch"
      "signals_removed s i = Some r"
  shows "signals_added (snd (component key s)) i = Some a \<and>
         signals_changed (snd (component key s)) i = Some ch \<and>
         signals_removed (snd (component key s)) i = Some r"
proof -
  from t(1) have "i \<in> dom (signals_added s)" by blast
  with c have "i \<in> ran (components s)" by (simp add: tables_dom)
  with c have "i < next_handle (registry s)" by (rule interned_bound)
  then have ne: "next_handle (registry s) \<noteq> i" by simp
  have "signals_added (snd (mint k s)) i = Some a \<and>
        signals_changed (snd (mint k s)) i = Some ch \<and>
        signals_removed (snd (mint k s)) i = Some r" for k
    using t ne by (simp add: signals_added_mint signals_changed_mint signals_removed_mint)
  with t show ?thesis
    by (simp add: component_def split_beta split: option.splits)
qed

lemma exec_preserves_maps:
  assumes comp: "\<And>key s. consistent s \<Longrightarrow> T s \<Longrightarrow> T (snd (component key s))"
    and reg: "\<And>s w. T s \<Longrightarrow> T (s\<lparr>registry := w\<rparr>)"
    and init: "consistent s \<and> T s"
  shows "consistent (exec x s) \<and> T (exec x s)"
proof (rule exec_preserves [where P = "\<lambda>s. consistent s \<and> T s"])
  show "consistent s \<and> T s" by (rule init)
next
  fix key s
  assume "consistent s \<and> T s"
  then show "consistent (snd (component key s)) \<and> T (snd (component key s))"
    by (simp add: comp consistent_component)
next
  fix key s j s' e v
  assume a: "consistent s \<and> T s" "component key s = (Inr j, s')"
  then have s': "consistent s'" "T s'"
    using consistent_component [of s key] comp [of s key] by simp_all
  from a have j: "j < next_handle (registry s')"
    using component_result_bound [of s key j s'] by blast
  from s' j show "consistent (s'\<lparr>registry := world_set e (Ident j) v (registry s')\<rparr>) \<and>
      T (s'\<lparr>registry := world_set e (Ident j) v (registry s')\<rparr>)"
    by (simp add: consistent_world_set reg)
  from s' j show "consistent (s'\<lparr>registry := world_add e (Ident j) (registry s')\<rparr>) \<and>
      T (s'\<lparr>registry := world_add e (Ident j) (registry s')\<rparr>)"
    by (simp add: consistent_world_add reg)
  from s' show "consistent (s'\<lparr>registry := world_remove e (Ident j) (registry s')\<rparr>) \<and>
      T (s'\<lparr>registry := world_remove e (Ident j) (registry s')\<rparr>)"
    by (simp add: consistent_world_remove reg)
next
  fix s
  assume "consistent s \<and> T s"
  then show "consistent (s\<lparr>registry := snd (world_entity (registry s))\<rparr>) \<and>
      T (s\<lparr>registry := snd (world_entity (registry s))\<rparr>)"
    by (simp add: consistent_world_entity reg)
next
  fix s e
  assume "consistent s \<and> T s"
  then show "consistent (s\<lparr>registry := world_delete e (registry s)\<rparr>) \<and>
      T (s\<lparr>registry := world_delete e (registry s)\<rparr>)"
    by (simp add: consistent_world_delete reg)
qed

lemma tables_exec:
  assumes "consistent s \<and> signals_added s i = Some a \<and> signals_changed s i = Some ch \<and>
           signals_removed s i = Some r"
  shows "consistent (exec x s) \<and> signals_added (exec x s) i = Some a \<and>
         signals_changed (exec x s) i = Some ch \<and> signals_removed (exec x s) i = Some r"
proof (rule exec_preserves_maps
    [where T = "\<lambda>s. signals_added s i = Some a \<and> signals_changed s i = Some ch \<and>
                     signals_removed s i = Some r"])
  show "consistent s \<and> signals_added s i = Some a \<and> signals_changed s i = Some ch \<and>
        signals_removed s i = Some r"
    by (rule assms)
qed (simp_all add: tables_component)

lemma tables_run:
  assumes "consistent s" "signals_added s i = Some a" "signals_changed s i = Some ch"
    "signals_removed s i = Some r"
  shows "signals_added (run ops s) i = Some a \<and> signals_changed (run ops s) i = Some ch \<and>
         signals_removed (run ops s) i = Some r"
proof -
  let ?P = "\<lambda>s. consistent s \<and> signals_added s i = Some a \<and> signals_changed s i = Some ch \<and>
                 signals_removed s i = Some r"
  have "?P (run ops s)"
    by (rule run_preserves [where P = ?P]) (use assms tables_exec in blast)+
  then show ?thesis by blast
qed

section \<open>The memoization table\<close>

text \<open>
  C8. The table from keys to identifiers only grows: a binding that is present stays
  present, with the same identifier, through every sequence of operations of the module,
  whether the operations return or throw.
\<close>

theorem components_only_grows:
  "components s k = Some i \<Longrightarrow> components (run ops s) k = Some i"
  by (rule run_preserves [where P = "\<lambda>s. components s k = Some i"])
     (simp_all add: components_exec)

theorem components_only_grows_witness:
  "components (exec (Component (Some ''HP'')) init_state) ''HP'' = Some 0 \<and>
   components
     (run [Component (Some ''Name''), Set 5 (Num 1) (Some ''HP''), Despawn 5, Spawn None None]
        (exec (Component (Some ''HP'')) init_state)) ''HP'' = Some 0"
proof -
  have h: "components (exec (Component (Some ''HP'')) init_state) ''HP'' = Some 0"
    by (simp add: component_def init_state_def new_world_def split_beta fst_mint components_mint)
  from h components_only_grows [OF h] show ?thesis by blast
qed

section \<open>Signals of an identifier\<close>

lemma store_fresh:
  assumes "consistent s"
  shows "store (registry (snd (mint k s))) (e, Ident (next_handle (registry s))) = None"
proof -
  have "store (registry s) (e, Ident (next_handle (registry s))) = None"
    using consistent_store [OF assms, of e "next_handle (registry s)"]
    by (cases "store (registry s) (e, Ident (next_handle (registry s)))") auto
  then show ?thesis by (simp add: store_mint)
qed

lemma component_tables:
  assumes k: "k \<noteq> []" and c: "consistent s"
  shows "\<exists>i a ch r s'. component (Some k) s = (Inr i, s') \<and> consistent s' \<and>
           signals_added s' i = Some a \<and> signals_changed s' i = Some ch \<and>
           signals_removed s' i = Some r \<and>
           (components s k = None \<longrightarrow> (\<forall>e. store (registry s') (e, Ident i) = None))"
proof (cases "components s k")
  case None
  with k have "component (Some k) s = (Inr (next_handle (registry s)), snd (mint k s))"
    by (simp add: component_new)
  moreover have "consistent (snd (mint k s))"
    using c None by (rule consistent_mint)
  ultimately show ?thesis
    using store_fresh [OF c, of k]
    by (simp add: signals_added_mint signals_changed_mint signals_removed_mint)
next
  case (Some i)
  then have "i \<in> ran (components s)" by (auto simp: ran_def)
  with c have "i \<in> dom (signals_added s)" "i \<in> dom (signals_changed s)"
    "i \<in> dom (signals_removed s)"
    by (simp_all add: tables_dom)
  then obtain a ch r where "signals_added s i = Some a" "signals_changed s i = Some ch"
    "signals_removed s i = Some r" by blast
  moreover from k Some have "component (Some k) s = (Inr i, s)"
    by (rule component_known)
  ultimately show ?thesis using c Some by simp
qed

lemma tables_valid:
  assumes "consistent s"
  shows "signals_added s i = Some a \<Longrightarrow> valid_signal s a"
    and "signals_changed s i = Some a \<Longrightarrow> valid_signal s a"
    and "signals_removed s i = Some a \<Longrightarrow> valid_signal s a"
  using assms unfolding consistent_def by blast+

text \<open>
  C3. In every state the module can reach, \<^verbatim>\<open>component\<close> on a key that passes the
  assertion returns an identifier whose entries in the three tables \<^verbatim>\<open>signals.added\<close>,
  \<^verbatim>\<open>signals.changed\<close> and \<^verbatim>\<open>signals.removed\<close> hold signals that \<^verbatim>\<open>createSignal\<close>
  returned; \<^verbatim>\<open>added\<close> and \<^verbatim>\<open>removed\<close> return them. For a newly interned key this holds
  while no entity carries the identifier. Whatever operations follow, the three entries
  keep the same signals.
\<close>

theorem signals_live:
  assumes "k \<noteq> []"
  shows "\<exists>i a ch r s'.
           component (Some k) (run pre init_state) = (Inr i, s') \<and>
           added i s' = (Inr (Some a), s') \<and> signals_changed s' i = Some ch \<and>
           removed i s' = (Inr (Some r), s') \<and>
           valid_signal s' a \<and> valid_signal s' ch \<and> valid_signal s' r \<and>
           (components (run pre init_state) k = None \<longrightarrow>
              (\<forall>e. store (registry s') (e, Ident i) = None)) \<and>
           (\<forall>post. added i (run post s') = (Inr (Some a), run post s') \<and>
                   signals_changed (run post s') i = Some ch \<and>
                   removed i (run post s') = (Inr (Some r), run post s'))"
proof -
  let ?s = "run pre init_state"
  have "consistent ?s" by (rule consistent_reachable)
  with assms have "\<exists>i a ch r s'. component (Some k) ?s = (Inr i, s') \<and> consistent s' \<and>
       signals_added s' i = Some a \<and> signals_changed s' i = Some ch \<and>
       signals_removed s' i = Some r \<and>
       (components ?s k = None \<longrightarrow> (\<forall>e. store (registry s') (e, Ident i) = None))"
    by (rule component_tables)
  then obtain i a ch r s' where
    all: "component (Some k) ?s = (Inr i, s') \<and> consistent s' \<and>
       signals_added s' i = Some a \<and> signals_changed s' i = Some ch \<and>
       signals_removed s' i = Some r \<and>
       (components ?s k = None \<longrightarrow> (\<forall>e. store (registry s') (e, Ident i) = None))"
    by (elim exE)
  then have res: "component (Some k) ?s = (Inr i, s')" and c': "consistent s'" and
    t: "signals_added s' i = Some a" "signals_changed s' i = Some ch"
       "signals_removed s' i = Some r" and
    unused: "components ?s k = None \<longrightarrow> (\<forall>e. store (registry s') (e, Ident i) = None)"
    by simp_all
  have later: "signals_added (run post s') i = Some a \<and>
      signals_changed (run post s') i = Some ch \<and>
      signals_removed (run post s') i = Some r" for post
    using c' t by (rule tables_run)
  have "valid_signal s' a" "valid_signal s' ch" "valid_signal s' r"
    using c' t by (blast intro: tables_valid)+
  with res t unused later show ?thesis
    by (simp add: added_def removed_def)
qed

theorem signals_live_witness:
  "''HP'' \<noteq> [] \<and>
   (\<exists>i a ch r s'.
      component (Some ''HP'') (run [] init_state) = (Inr i, s') \<and>
      added i s' = (Inr (Some a), s') \<and> signals_changed s' i = Some ch \<and>
      removed i s' = (Inr (Some r), s') \<and>
      valid_signal s' a \<and> valid_signal s' ch \<and> valid_signal s' r \<and>
      (components (run [] init_state) ''HP'' = None \<longrightarrow>
         (\<forall>e. store (registry s') (e, Ident i) = None)) \<and>
      (\<forall>post. added i (run post s') = (Inr (Some a), run post s') \<and>
              signals_changed (run post s') i = Some ch \<and>
              removed i (run post s') = (Inr (Some r), run post s')))"
  using signals_live [of "''HP''" "[]"] by simp

text \<open>
  C6 as stated fails: for an identifier that was never minted, \<^verbatim>\<open>added\<close> and
  \<^verbatim>\<open>removed\<close> raise nothing and return \<^verbatim>\<open>undefined\<close>.
\<close>

theorem unminted_returns_absent_counterexample:
  "fst (added 7 init_state) = Inr None \<and> fst (removed 7 init_state) = Inr None"
  by (simp add: added_def removed_def init_state_def)

text \<open>
  C6, amended. In every state the module can reach, \<^verbatim>\<open>added\<close> and \<^verbatim>\<open>removed\<close> on an
  identifier that \<^verbatim>\<open>component\<close> never returned raise no error, change nothing and
  return the absent value.
\<close>

theorem unminted_returns_absent:
  assumes "i \<notin> ran (components (run pre init_state))"
  shows "added i (run pre init_state) = (Inr None, run pre init_state) \<and>
         removed i (run pre init_state) = (Inr None, run pre init_state)"
proof -
  have c: "consistent (run pre init_state)" by (rule consistent_reachable)
  from assms have "i \<notin> dom (signals_added (run pre init_state))"
    "i \<notin> dom (signals_removed (run pre init_state))"
    by (simp_all add: tables_dom [OF c])
  then show ?thesis by (auto simp: added_def removed_def)
qed

theorem unminted_returns_absent_witness:
  "7 \<notin> ran (components (run [Component (Some ''HP'')] init_state)) \<and>
   added 7 (run [Component (Some ''HP'')] init_state) =
     (Inr None, run [Component (Some ''HP'')] init_state) \<and>
   removed 7 (run [Component (Some ''HP'')] init_state) =
     (Inr None, run [Component (Some ''HP'')] init_state)"
proof -
  have h: "7 \<notin> ran (components (run [Component (Some ''HP'')] init_state))"
    by (simp add: component_def split_beta components_mint init_state_def new_world_def)
  from h unminted_returns_absent [OF h] show ?thesis by blast
qed

section \<open>The loops of insert and spawn\<close>

lemma component_ok: "k \<noteq> [] \<Longrightarrow> \<exists>i s'. component (Some k) s = (Inr i, s')"
  by (cases "components s k") (simp_all add: component_new component_known)

lemma set_op_ok: "k \<noteq> [] \<Longrightarrow> fst (set_op e v (Some k) s) = Inr ()"
  using component_ok [of k s] by (auto simp: set_op_def)

lemma insert_loop_step:
  assumes "key \<noteq> []"
  shows "insert_loop e vs (key # keys) s =
           insert_loop e vs keys (snd (set_op e (Arr vs) (Some key) s))"
  using component_ok [OF assms, of s] by (auto simp: set_op_def)

lemma insert_loop_foldl:
  "[] \<notin> set keys \<Longrightarrow>
     insert_loop e vs keys s =
       (Inr (), foldl (\<lambda>t k. snd (set_op e (Arr vs) (Some k) t)) s keys)"
proof (induction keys arbitrary: s)
  case Nil
  then show ?case by simp
next
  case (Cons key keys)
  then have key: "key \<noteq> []" and keys: "[] \<notin> set keys" by auto
  have "insert_loop e vs (key # keys) s =
      insert_loop e vs keys (snd (set_op e (Arr vs) (Some key) s))"
    using key by (rule insert_loop_step)
  also have "\<dots> = (Inr (), foldl (\<lambda>t k. snd (set_op e (Arr vs) (Some k) t))
      (snd (set_op e (Arr vs) (Some key) s)) keys)"
    using keys by (rule Cons.IH)
  finally show ?case by simp
qed

lemma spawn_loop_step:
  assumes "index < length ks" and "ks ! index \<noteq> []"
  shows "spawn_loop e b ks (index # rest) s =
           spawn_loop e b ks rest (snd (set_op e (b ! index) (Some (ks ! index)) s))"
  using component_ok [OF assms(2), of s] assms(1) by (auto simp: set_op_def)

lemma spawn_loop_stop:
  "length ks \<le> index \<Longrightarrow> spawn_loop e b ks (index # rest) s = (Inl AssertionFailed, s)"
  by (simp add: component_absent)

lemma spawn_loop_foldl:
  assumes "\<forall>i \<in> set idxs. i < length ks \<and> ks ! i \<noteq> []"
  shows "spawn_loop e b ks idxs s =
           (Inr (), foldl (\<lambda>t i. snd (set_op e (b ! i) (Some (ks ! i)) t)) s idxs)"
  using assms
proof (induction idxs arbitrary: s)
  case Nil
  then show ?case by simp
next
  case (Cons index rest)
  then have index: "index < length ks" "ks ! index \<noteq> []"
    and rest: "\<forall>i \<in> set rest. i < length ks \<and> ks ! i \<noteq> []" by auto
  have "spawn_loop e b ks (index # rest) s =
      spawn_loop e b ks rest (snd (set_op e (b ! index) (Some (ks ! index)) s))"
    using index by (rule spawn_loop_step)
  also have "\<dots> = (Inr (), foldl (\<lambda>t i. snd (set_op e (b ! i) (Some (ks ! i)) t))
      (snd (set_op e (b ! index) (Some (ks ! index)) s)) rest)"
    using rest by (rule Cons.IH)
  finally show ?case by simp
qed

lemma spawn_loop_append:
  "spawn_loop e b ks (xs @ ys) s =
     (case spawn_loop e b ks xs s of
        (Inl err, s') \<Rightarrow> (Inl err, s')
      | (Inr u, s') \<Rightarrow> spawn_loop e b ks ys s')"
proof (induction xs arbitrary: s)
  case Nil
  then show ?case by simp
next
  case (Cons x xs)
  obtain r s' where c: "component (if x < length ks then Some (ks ! x) else None) s = (r, s')"
    by (cases "component (if x < length ks then Some (ks ! x) else None) s")
  show ?case
  proof (cases r)
    case (Inl err)
    with c show ?thesis by (simp add: Let_def)
  next
    case (Inr i)
    with c Cons.IH show ?thesis by (simp add: Let_def)
  qed
qed

lemma zip_as_indices:
  "zip b ks = map (\<lambda>i. (b ! i, ks ! i)) [0..<min (length b) (length ks)]"
  by (rule nth_equalityI) simp_all

lemma foldl_indices_zip:
  "foldl (\<lambda>t i. f t (b ! i, ks ! i)) s [0..<min (length b) (length ks)] = foldl f s (zip b ks)"
  by (simp only: zip_as_indices foldl_map)

lemma nonempty_nth: "[] \<notin> set ks \<Longrightarrow> i < length ks \<Longrightarrow> ks ! i \<noteq> []"
  by (metis nth_mem)

lemma spawn_loop_aligned:
  assumes "length b \<le> length ks" and "[] \<notin> set (take (length b) ks)"
  shows "spawn_loop e b ks [0..<length b] s =
           (Inr (), foldl (\<lambda>t (v, k). snd (set_op e v (Some k) t)) s (zip b ks))"
proof -
  have "\<forall>i \<in> set [0..<length b]. i < length ks \<and> ks ! i \<noteq> []"
  proof
    fix i assume "i \<in> set [0..<length b]"
    then have i: "i < length b" by simp
    with assms(1) have "i < length (take (length b) ks)" by simp
    with assms(2) have "take (length b) ks ! i \<noteq> []" by (rule nonempty_nth)
    with i assms(1) show "i < length ks \<and> ks ! i \<noteq> []" by simp
  qed
  then have "spawn_loop e b ks [0..<length b] s =
      (Inr (), foldl (\<lambda>t i. snd (set_op e (b ! i) (Some (ks ! i)) t)) s [0..<length b])"
    by (rule spawn_loop_foldl)
  also have "foldl (\<lambda>t i. snd (set_op e (b ! i) (Some (ks ! i)) t)) s [0..<length b] =
      foldl (\<lambda>t (v, k). snd (set_op e v (Some k) t)) s (zip b ks)"
    using foldl_indices_zip [of "\<lambda>t (v, k). snd (set_op e v (Some k) t)" b ks s] assms(1)
    by (simp add: min_absorb1)
  finally show ?thesis .
qed

lemma spawn_loop_short:
  assumes "length ks < length b" and "[] \<notin> set ks"
  shows "spawn_loop e b ks [0..<length b] s =
           (Inl AssertionFailed, foldl (\<lambda>t (v, k). snd (set_op e v (Some k) t)) s (zip b ks))"
proof -
  have split: "[0..<length b] = [0..<length ks] @ length ks # [Suc (length ks)..<length b]"
    using assms(1) by (metis less_imp_le_nat upt_add_eq_append upt_conv_Cons add_0 le_add_diff_inverse zero_le)
  have "\<forall>i \<in> set [0..<length ks]. i < length ks \<and> ks ! i \<noteq> []"
    using assms(2) by (simp add: nonempty_nth)
  then have "spawn_loop e b ks [0..<length ks] s =
      (Inr (), foldl (\<lambda>t i. snd (set_op e (b ! i) (Some (ks ! i)) t)) s [0..<length ks])"
    by (rule spawn_loop_foldl)
  moreover have "foldl (\<lambda>t i. snd (set_op e (b ! i) (Some (ks ! i)) t)) s [0..<length ks] =
      foldl (\<lambda>t (v, k). snd (set_op e v (Some k) t)) s (zip b ks)"
    using foldl_indices_zip [of "\<lambda>t (v, k). snd (set_op e v (Some k) t)" b ks s] assms(1)
    by (simp add: min_absorb2)
  ultimately show ?thesis
    by (simp only: split spawn_loop_append spawn_loop_stop [OF le_refl] prod.case sum.case)
qed

section \<open>spawn, insert and the absent key\<close>

lemma calls_component:
  "filter is_NewEntity (calls (registry (snd (component key s)))) =
     filter is_NewEntity (calls (registry s))"
  by (auto simp: component_def split_beta calls_mint split: option.splits)

lemma entity_requests_set_op:
  "entity_requests (snd (set_op e v key s)) = entity_requests s"
  using calls_component [of key s]
  by (auto simp: set_op_def entity_requests_def world_set_def split: prod.splits sum.splits)

lemma entity_requests_foldl:
  "entity_requests (foldl (\<lambda>t (v, k). snd (set_op e v (Some k) t)) s xs) = entity_requests s"
  by (induction xs arbitrary: s) (simp_all add: entity_requests_set_op split_beta)

lemma spawn_bare:
  "spawn None None s =
     (Inr (next_handle (registry s)), s\<lparr>registry := snd (world_entity (registry s))\<rparr>)"
  by (simp add: spawn_def world_entity_def)

lemma entity_requests_world_entity:
  "entity_requests (s\<lparr>registry := snd (world_entity (registry s))\<rparr>) = Suc (entity_requests s)"
  by (simp add: entity_requests_def world_entity_def)

lemma spawn_eq:
  "spawn (Some b) (Some ks) s =
     (case spawn_loop (next_handle (registry s)) b ks [0..<length b]
             (s\<lparr>registry := snd (world_entity (registry s))\<rparr>) of
        (Inl err, s') \<Rightarrow> (Inl err, s')
      | (Inr u, s') \<Rightarrow> (Inr (next_handle (registry s)), s'))"
  by (simp add: spawn_def world_entity_def)

lemma spawn_keys_cover:
  assumes "length b \<le> length ks" and "[] \<notin> set (take (length b) ks)"
  shows "spawn (Some b) (Some ks) s =
           (Inr (next_handle (registry s)),
            foldl (\<lambda>t (v, k). snd (set_op (next_handle (registry s)) v (Some k) t))
              (s\<lparr>registry := snd (world_entity (registry s))\<rparr>) (zip b ks))"
  by (simp only: spawn_eq spawn_loop_aligned [OF assms] prod.case sum.case)

lemma spawn_keys_short:
  assumes "length ks < length b" and "[] \<notin> set ks"
  shows "spawn (Some b) (Some ks) s =
           (Inl AssertionFailed,
            foldl (\<lambda>t (v, k). snd (set_op (next_handle (registry s)) v (Some k) t))
              (s\<lparr>registry := snd (world_entity (registry s))\<rparr>) (zip b ks))"
  by (simp only: spawn_eq spawn_loop_short [OF assms] prod.case sum.case)

lemma insert_op_ok: "[] \<notin> set ks \<Longrightarrow> fst (insert_op e vs (Some ks) s) = Inr ()"
  by (simp add: insert_op_def insert_loop_foldl)

lemma zip_take_both: "zip (take (length ks) b) (take (length b) ks) = zip b ks"
  by (rule nth_equalityI) auto

text \<open>
  C4. With a bundle and a list of keys of the same length, all keys passing the
  assertion, \<^verbatim>\<open>spawn\<close> asks the Store for exactly one entity, then does for the
  positions in order what \<^verbatim>\<open>set\<close> does with the value and the key at that position
  on that entity, and returns the entity. With neither argument it returns the new
  entity and does nothing else.
\<close>

theorem spawn_sets_in_order:
  assumes "length ks = length b" and "[] \<notin> set ks"
  shows "spawn (Some b) (Some ks) s =
           (Inr (next_handle (registry s)),
            foldl (\<lambda>t (v, k). snd (set_op (next_handle (registry s)) v (Some k) t))
              (s\<lparr>registry := snd (world_entity (registry s))\<rparr>) (zip b ks)) \<and>
         entity_requests (snd (spawn (Some b) (Some ks) s)) = Suc (entity_requests s) \<and>
         spawn None None s =
           (Inr (next_handle (registry s)), s\<lparr>registry := snd (world_entity (registry s))\<rparr>)"
proof -
  let ?e = "next_handle (registry s)"
  let ?s1 = "s\<lparr>registry := snd (world_entity (registry s))\<rparr>"
  from assms have "length b \<le> length ks" "[] \<notin> set (take (length b) ks)" by simp_all
  then have sp: "spawn (Some b) (Some ks) s =
      (Inr ?e, foldl (\<lambda>t (v, k). snd (set_op ?e v (Some k) t)) ?s1 (zip b ks))"
    by (rule spawn_keys_cover)
  then have "entity_requests (snd (spawn (Some b) (Some ks) s)) = Suc (entity_requests s)"
    by (simp only: snd_conv entity_requests_foldl entity_requests_world_entity)
  with sp spawn_bare [of s] show ?thesis by blast
qed

theorem spawn_sets_in_order_witness:
  "length [''HP'', ''Name''] = length [Num 10, Str ''alice''] \<and>
   [] \<notin> set [''HP'', ''Name''] \<and>
   fst (spawn (Some [Num 10, Str ''alice'']) (Some [''HP'', ''Name'']) init_state) = Inr 0 \<and>
   entity_requests (snd (spawn (Some [Num 10, Str ''alice'']) (Some [''HP'', ''Name''])
     init_state)) = 1"
proof -
  have h1: "length [''HP'', ''Name''] = length [Num 10, Str ''alice'']" by simp
  have h2: "[] \<notin> set [''HP'', ''Name'']" by simp
  note t = spawn_sets_in_order [OF h1 h2, of init_state]
  have "fst (spawn (Some [Num 10, Str ''alice'']) (Some [''HP'', ''Name'']) init_state) =
      Inr (next_handle (registry init_state))"
    by (simp only: t [THEN conjunct1] fst_conv)
  moreover have "entity_requests (snd (spawn (Some [Num 10, Str ''alice''])
      (Some [''HP'', ''Name'']) init_state)) = Suc (entity_requests init_state)"
    by (rule t [THEN conjunct2, THEN conjunct1])
  ultimately show ?thesis
    using h1 h2 by (simp add: init_state_def new_world_def entity_requests_def)
qed

text \<open>
  C9. With exactly one of the two arguments present, \<^verbatim>\<open>spawn\<close> raises nothing: it
  returns the entity it asked the Store for, and the only change to the state is that
  request. The argument that was given is not looked at.
\<close>

theorem spawn_one_absent:
  "spawn (Some b) None s =
     (Inr (next_handle (registry s)),
      s\<lparr>registry := (registry s)\<lparr>next_handle := Suc (next_handle (registry s)),
           calls := calls (registry s) @ [NewEntity (next_handle (registry s))]\<rparr>\<rparr>) \<and>
   spawn None (Some ks) s =
     (Inr (next_handle (registry s)),
      s\<lparr>registry := (registry s)\<lparr>next_handle := Suc (next_handle (registry s)),
           calls := calls (registry s) @ [NewEntity (next_handle (registry s))]\<rparr>\<rparr>)"
  by (simp add: spawn_def world_entity_def)

text \<open>
  C5 as stated fails for \<^verbatim>\<open>spawn\<close>: with a bundle and no keys it returns an entity,
  and the Store has been asked for that entity.
\<close>

theorem absent_key_counterexample:
  "fst (spawn (Some [Num 1]) None init_state) = Inr 0 \<and>
   calls (registry init_state) = [] \<and>
   calls (registry (snd (spawn (Some [Num 1]) None init_state))) = [NewEntity 0]"
  by (simp add: spawn_def world_entity_def init_state_def new_world_def)

text \<open>
  C5, amended. With an absent key, \<^verbatim>\<open>component\<close>, \<^verbatim>\<open>set\<close>, \<^verbatim>\<open>add\<close>, \<^verbatim>\<open>remove\<close>,
  \<^verbatim>\<open>get\<close> and \<^verbatim>\<open>has\<close>, and \<^verbatim>\<open>insert\<close> with an absent key list, throw the assertion
  failure and leave the whole state as it was. \<^verbatim>\<open>spawn\<close> with a bundle and an absent
  key list does not throw: it asks the Store for one entity and returns it.
\<close>

theorem absent_key_fails:
  "component None s = (Inl AssertionFailed, s) \<and>
   set_op e v None s = (Inl AssertionFailed, s) \<and>
   insert_op e vs None s = (Inl AssertionFailed, s) \<and>
   add e None s = (Inl AssertionFailed, s) \<and>
   remove_op e None s = (Inl AssertionFailed, s) \<and>
   get e None s = (Inl AssertionFailed, s) \<and>
   has e None s = (Inl AssertionFailed, s) \<and>
   fst (spawn (Some b) None s) = Inr (next_handle (registry s)) \<and>
   entity_requests (snd (spawn (Some b) None s)) = Suc (entity_requests s)"
  by (simp add: component_absent set_op_def insert_op_def add_def remove_op_def get_def has_def
        spawn_def world_entity_def entity_requests_def)

text \<open>
  C7 as stated fails: with one value and two keys, \<^verbatim>\<open>insert\<close> and \<^verbatim>\<open>spawn\<close> both
  return normally.
\<close>

theorem length_mismatch_counterexample:
  "length [Num 1] \<noteq> length [''a'', ''b''] \<and>
   fst (insert_op 0 [Num 1] (Some [''a'', ''b'']) init_state) = Inr () \<and>
   fst (spawn (Some [Num 1]) (Some [''a'', ''b'']) init_state) = Inr 0"
proof -
  have ne: "[] \<notin> set [''a'', ''b'']" by simp
  have le: "length [Num 1] \<le> length [''a'', ''b'']" by simp
  have ne': "[] \<notin> set (take (length [Num 1]) [''a'', ''b''])" by simp
  have "fst (spawn (Some [Num 1]) (Some [''a'', ''b'']) init_state) =
      Inr (next_handle (registry init_state))"
    by (simp only: spawn_keys_cover [OF le ne'] fst_conv)
  then have "fst (spawn (Some [Num 1]) (Some [''a'', ''b'']) init_state) = Inr 0"
    by (simp add: init_state_def new_world_def)
  with insert_op_ok [OF ne, of 0 "[Num 1]" init_state] show ?thesis by simp
qed

text \<open>
  C7, amended. The lengths are never compared. With lists of different lengths and keys
  that pass the assertion, \<^verbatim>\<open>insert\<close> returns normally. \<^verbatim>\<open>spawn\<close> returns the entity
  when the key list is the longer one, the surplus keys being ignored, and throws the
  assertion failure when the key list is the shorter one; in both cases the state it
  leaves is the state that \<^verbatim>\<open>spawn\<close> leaves on the two lists cut to the common length.
\<close>

theorem length_mismatch:
  assumes "length b \<noteq> length ks" and "[] \<notin> set ks"
  shows "fst (insert_op e b (Some ks) s) = Inr () \<and>
         fst (spawn (Some b) (Some ks) s) =
           (if length b < length ks then Inr (next_handle (registry s))
            else Inl AssertionFailed) \<and>
         snd (spawn (Some b) (Some ks) s) =
           snd (spawn (Some (take (length ks) b)) (Some (take (length b) ks)) s)"
proof -
  let ?e = "next_handle (registry s)"
  let ?s1 = "s\<lparr>registry := snd (world_entity (registry s))\<rparr>"
  let ?f = "\<lambda>t (v, k). snd (set_op ?e v (Some k) t)"
  have ins: "fst (insert_op e b (Some ks) s) = Inr ()"
    using assms(2) by (rule insert_op_ok)
  have cut: "spawn (Some (take (length ks) b)) (Some (take (length b) ks)) s =
      (Inr ?e, foldl ?f ?s1 (zip b ks))"
  proof -
    have "[] \<notin> set (take (length b) ks)"
      using assms(2) by (meson in_set_takeD)
    then have "[] \<notin> set (take (length (take (length ks) b)) (take (length b) ks))"
      by (meson in_set_takeD)
    moreover have "length (take (length ks) b) \<le> length (take (length b) ks)"
      by simp
    ultimately have "spawn (Some (take (length ks) b)) (Some (take (length b) ks)) s =
        (Inr ?e, foldl ?f ?s1 (zip (take (length ks) b) (take (length b) ks)))"
      by (rule spawn_keys_cover [rotated])
    then show ?thesis by (simp only: zip_take_both)
  qed
  show ?thesis
  proof (cases "length b < length ks")
    case True
    then have "length b \<le> length ks" by simp
    moreover have "[] \<notin> set (take (length b) ks)"
      using assms(2) by (meson in_set_takeD)
    ultimately have "spawn (Some b) (Some ks) s = (Inr ?e, foldl ?f ?s1 (zip b ks))"
      by (rule spawn_keys_cover)
    with True ins cut show ?thesis by simp
  next
    case False
    with assms(1) have "length ks < length b" by simp
    then have "spawn (Some b) (Some ks) s = (Inl AssertionFailed, foldl ?f ?s1 (zip b ks))"
      using assms(2) by (rule spawn_keys_short)
    with False ins cut show ?thesis by simp
  qed
qed

theorem length_mismatch_witness:
  "length [Num 1, Num 2] \<noteq> length [''a''] \<and> [] \<notin> set [''a''] \<and>
   fst (insert_op 0 [Num 1, Num 2] (Some [''a'']) init_state) = Inr () \<and>
   fst (spawn (Some [Num 1, Num 2]) (Some [''a'']) init_state) = Inl AssertionFailed"
proof -
  have h1: "length [Num 1, Num 2] \<noteq> length [''a'']" by simp
  have h2: "[] \<notin> set [''a'']" by simp
  from length_mismatch [OF h1 h2, of 0 init_state] h1 h2 show ?thesis by simp
qed

text \<open>
  C2 at a concrete input. After \<^verbatim>\<open>insert(0, [10, "alice"], ["HP", "Name"])\<close> on a fresh
  entity \<open>0\<close>, \<^verbatim>\<open>get(0, "HP")\<close> is the whole array; after \<^verbatim>\<open>set(0, 10, "HP")\<close> it is
  \<open>10\<close>.
\<close>

theorem insert_stores_whole_array:
  "fst (get 0 (Some ''HP'')
          (snd (insert_op 0 [Num 10, Str ''alice''] (Some [''HP'', ''Name''])
                  (snd (spawn None None init_state))))) =
     Inr (Some (Arr [Num 10, Str ''alice''])) \<and>
   fst (get 0 (Some ''HP'')
          (snd (set_op 0 (Num 10) (Some ''HP'') (snd (spawn None None init_state))))) =
     Inr (Some (Num 10))"
  by (simp add: get_def insert_op_def set_op_def component_def mint_def world_component_def
        createSignal_def world_set_def world_get_def spawn_def world_entity_def init_state_def
        new_world_def Let_def)

text \<open>
  C10. \<^verbatim>\<open>get\<close> and \<^verbatim>\<open>has\<close> on a key that passes the assertion and is not interned
  change the state before they query the Store: the key is bound to a new identifier,
  three new signals are entered under it in the three tables, and the three hooks are
  registered with the Store. The answer is the Store's answer in that state.
\<close>

theorem query_interns_key:
  assumes "k \<noteq> []" and "components s k = None"
  shows "\<exists>s'. get e (Some k) s =
             (Inr (world_get e (Ident (next_handle (registry s))) (registry s')), s') \<and>
           has e (Some k) s =
             (Inr (world_has e (Ident (next_handle (registry s))) (registry s')), s') \<and>
           components s' = (components s)(k \<mapsto> next_handle (registry s)) \<and>
           signals_added s' =
             (signals_added s)(next_handle (registry s) \<mapsto> Signal (created_signals s)) \<and>
           signals_removed s' =
             (signals_removed s)(next_handle (registry s) \<mapsto>
                Signal (Suc (created_signals s))) \<and>
           signals_changed s' =
             (signals_changed s)(next_handle (registry s) \<mapsto>
                Signal (Suc (Suc (created_signals s)))) \<and>
           created_signals s' = Suc (Suc (Suc (created_signals s))) \<and>
           store (registry s') =
             (store (registry s))
               ((next_handle (registry s), OnAdd) \<mapsto>
                  Some (Fn (FireEntity (Signal (created_signals s)))),
                (next_handle (registry s), OnRemove) \<mapsto>
                  Some (Fn (FireEntity (Signal (Suc (created_signals s))))),
                (next_handle (registry s), OnSet) \<mapsto>
                  Some (Fn (FireEntityData (Signal (Suc (Suc (created_signals s))))))) \<and>
           calls (registry s') =
             calls (registry s) @
               [NewComponent (next_handle (registry s)),
                SetCall (next_handle (registry s)) OnAdd
                  (Fn (FireEntity (Signal (created_signals s)))),
                SetCall (next_handle (registry s)) OnRemove
                  (Fn (FireEntity (Signal (Suc (created_signals s))))),
                SetCall (next_handle (registry s)) OnSet
                  (Fn (FireEntityData (Signal (Suc (Suc (created_signals s))))))]"
proof -
  from assms have c: "component (Some k) s = (Inr (next_handle (registry s)), snd (mint k s))"
    by (rule component_new)
  show ?thesis
  proof (intro exI [of _ "snd (mint k s)"] conjI)
    show "get e (Some k) s =
        (Inr (world_get e (Ident (next_handle (registry s))) (registry (snd (mint k s)))),
         snd (mint k s))"
      by (simp add: get_def c)
    show "has e (Some k) s =
        (Inr (world_has e (Ident (next_handle (registry s))) (registry (snd (mint k s)))),
         snd (mint k s))"
      by (simp add: has_def c)
  qed (rule components_mint signals_added_mint signals_removed_mint signals_changed_mint
        created_signals_mint store_mint calls_mint)+
qed

theorem query_interns_key_witness:
  "''HP'' \<noteq> [] \<and> components init_state ''HP'' = None \<and>
   (\<exists>s'. get 0 (Some ''HP'') init_state = (Inr None, s') \<and>
      has 0 (Some ''HP'') init_state = (Inr False, s') \<and>
      components s' ''HP'' = Some 0 \<and>
      signals_added s' 0 = Some (Signal 0) \<and>
      signals_removed s' 0 = Some (Signal 1) \<and>
      signals_changed s' 0 = Some (Signal 2) \<and>
      calls (registry s') =
        [NewComponent 0, SetCall 0 OnAdd (Fn (FireEntity (Signal 0))),
         SetCall 0 OnRemove (Fn (FireEntity (Signal 1))),
         SetCall 0 OnSet (Fn (FireEntityData (Signal 2)))])"
proof -
  have h1: "''HP'' \<noteq> []" by simp
  have h2: "components init_state ''HP'' = None" by (simp add: init_state_def)
  from query_interns_key [OF h1 h2, of 0] obtain s' where
    s': "get 0 (Some ''HP'') init_state =
           (Inr (world_get 0 (Ident (next_handle (registry init_state))) (registry s')), s')"
        "has 0 (Some ''HP'') init_state =
           (Inr (world_has 0 (Ident (next_handle (registry init_state))) (registry s')), s')"
        "components s' = (components init_state)(''HP'' \<mapsto> next_handle (registry init_state))"
        "signals_added s' = (signals_added init_state)(next_handle (registry init_state) \<mapsto>
            Signal (created_signals init_state))"
        "signals_removed s' = (signals_removed init_state)(next_handle (registry init_state) \<mapsto>
            Signal (Suc (created_signals init_state)))"
        "signals_changed s' = (signals_changed init_state)(next_handle (registry init_state) \<mapsto>
            Signal (Suc (Suc (created_signals init_state))))"
        "store (registry s') =
             (store (registry init_state))
               ((next_handle (registry init_state), OnAdd) \<mapsto>
                  Some (Fn (FireEntity (Signal (created_signals init_state)))),
                (next_handle (registry init_state), OnRemove) \<mapsto>
                  Some (Fn (FireEntity (Signal (Suc (created_signals init_state))))),
                (next_handle (registry init_state), OnSet) \<mapsto>
                  Some (Fn (FireEntityData (Signal (Suc (Suc (created_signals init_state)))))))"
        "calls (registry s') = calls (registry init_state) @
               [NewComponent (next_handle (registry init_state)),
                SetCall (next_handle (registry init_state)) OnAdd
                  (Fn (FireEntity (Signal (created_signals init_state)))),
                SetCall (next_handle (registry init_state)) OnRemove
                  (Fn (FireEntity (Signal (Suc (created_signals init_state))))),
                SetCall (next_handle (registry init_state)) OnSet
                  (Fn (FireEntityData (Signal (Suc (Suc (created_signals init_state))))))]"
    by blast
  have st: "store (registry s') (0, Ident 0) = None"
    using s'(7) by (simp add: init_state_def new_world_def)
  show ?thesis
    using h1 h2 s' st
    by (intro conjI exI [of _ s']) (simp_all add: init_state_def new_world_def world_get_def world_has_def)
qed

end
